theory Spec2Isabelle
  imports Main "HOL-Library.Sublist"
begin

section \<open>Data model of the MultiSelect component\<close>

text \<open>
  The component \<^verbatim>\<open>MultiSelect\<close> (\<^verbatim>\<open>src/components/MultiSelect.tsx\<close>) keeps six pieces of
  React state. They are collected in one record; every handler of the component becomes
  a function from the state of the render it runs in to the state after its setters.
  JavaScript numbers that only ever hold integers are \<open>int\<close>; strings are \<open>string\<close>.
\<close>

record Character =
  id_c :: int
  name :: string
  image_c :: string
  episode :: "string list"

record ms_state =
  selectedOptions :: "string list"
  searchTerm :: string
  loading :: bool
  error :: "string option"
  results :: "Character list"
  highlightedIndex :: int

text \<open>The initial values of the \<^verbatim>\<open>useState\<close> calls.\<close>

definition initial_state :: ms_state where
  "initial_state =
     \<lparr>selectedOptions = [], searchTerm = [], loading = False, error = None,
      results = [], highlightedIndex = 0\<rparr>"

text \<open>Three characters, for the concrete runs further down.\<close>

definition rick :: Character where
  "rick = \<lparr>id_c = 1, name = ''Rick Sanchez'', image_c = ''1.jpeg'', episode = [''1'', ''2'']\<rparr>"

definition morty :: Character where
  "morty = \<lparr>id_c = 2, name = ''Morty Smith'', image_c = ''2.jpeg'', episode = [''1'']\<rparr>"

definition ricky :: Character where
  "ricky = \<lparr>id_c = 3, name = ''Ricky'', image_c = ''3.jpeg'', episode = []\<rparr>"

section \<open>Selection state\<close>

text \<open>
  \<^verbatim>\<open>handleOptionClick\<close> and \<^verbatim>\<open>handleRemoveOption\<close> act on \<^verbatim>\<open>selectedOptions\<close> only.
  \<open>toggle\<close> and \<open>remove_option\<close> are their effect on that list:
  \<^verbatim>\<open>selectedOptions.includes(option)\<close> is membership,
  \<^verbatim>\<open>selectedOptions.filter((item) => item !== option)\<close> is \<open>filter\<close>, and the spread
  \<^verbatim>\<open>[...selectedOptions, option]\<close> appends at the end.
\<close>

definition toggle :: "string list \<Rightarrow> string \<Rightarrow> string list" where
  "toggle sel option =
     (if option \<in> set sel then filter (\<lambda>item. item \<noteq> option) sel else sel @ [option])"

definition remove_option :: "string list \<Rightarrow> string \<Rightarrow> string list" where
  "remove_option sel option = filter (\<lambda>item. item \<noteq> option) sel"

definition handleOptionClick :: "ms_state \<Rightarrow> string \<Rightarrow> ms_state" where
  "handleOptionClick s option = s\<lparr>selectedOptions := toggle (selectedOptions s) option\<rparr>"

definition handleRemoveOption :: "ms_state \<Rightarrow> string \<Rightarrow> ms_state" where
  "handleRemoveOption s option =
     s\<lparr>selectedOptions := remove_option (selectedOptions s) option\<rparr>"

section \<open>Keyboard navigation\<close>

text \<open>
  The keys \<^verbatim>\<open>handleKeyDown\<close> distinguishes, and the \<^verbatim>\<open>shiftKey\<close> flag of the event.
  \<^verbatim>\<open>results[highlightedIndex]\<close> is \<^verbatim>\<open>undefined\<close> outside the array, which the
  \<^verbatim>\<open>if\<close> of the Enter case tests; \<open>result_at\<close> returns \<open>None\<close> there. An element of
  the array is an object and so always truthy.
\<close>

datatype key = ArrowDown | ArrowUp | Tab | Enter | Backspace | OtherKey string

definition result_at :: "Character list \<Rightarrow> int \<Rightarrow> Character option" where
  "result_at rs i = (if 0 \<le> i \<and> i < int (length rs) then Some (rs ! nat i) else None)"

fun handleKeyDown :: "ms_state \<Rightarrow> key \<Rightarrow> bool \<Rightarrow> ms_state" where
  "handleKeyDown s ArrowDown shiftKey =
     s\<lparr>highlightedIndex := min (highlightedIndex s + 1) (int (length (results s)) - 1)\<rparr>"
| "handleKeyDown s ArrowUp shiftKey =
     s\<lparr>highlightedIndex := max (highlightedIndex s - 1) 0\<rparr>"
| "handleKeyDown s Tab shiftKey =
     (if shiftKey then
        (if highlightedIndex s > 0 then s\<lparr>highlightedIndex := highlightedIndex s - 1\<rparr>
         else s)
      else
        (if highlightedIndex s < int (length (results s)) - 1
         then s\<lparr>highlightedIndex := highlightedIndex s + 1\<rparr>
         else s))"
| "handleKeyDown s Enter shiftKey =
     (case result_at (results s) (highlightedIndex s) of
        Some r \<Rightarrow> handleOptionClick s (name r)
      | None \<Rightarrow> s)"
| "handleKeyDown s Backspace shiftKey =
     (if searchTerm s = [] \<and> length (selectedOptions s) > 0
      then handleRemoveOption s (last (selectedOptions s))
      else s)"
| "handleKeyDown s (OtherKey k) shiftKey = s"

section \<open>Remote search\<close>

text \<open>
  The promise returned by \<^verbatim>\<open>axios.get\<close> either resolves with the character list of
  \<^verbatim>\<open>response.data.results\<close>, or rejects with an \<^verbatim>\<open>AxiosError\<close> whose \<^verbatim>\<open>response\<close> is
  absent (\<open>Rejected None\<close>) or carries a status code.
\<close>

datatype axios_outcome = Resolved "Character list" | Rejected "int option"

text \<open>
  The body of the debounced callback in two parts: what runs before the \<^verbatim>\<open>await\<close>,
  and what runs when the promise settles (the rest of \<^verbatim>\<open>try\<close>, or \<^verbatim>\<open>catch\<close>, and then
  \<^verbatim>\<open>finally\<close>).
\<close>

definition handleSearch_start :: "ms_state \<Rightarrow> ms_state" where
  "handleSearch_start s = s\<lparr>loading := True\<rparr>"

fun handleSearch_try :: "ms_state \<Rightarrow> string \<Rightarrow> axios_outcome \<Rightarrow> ms_state" where
  "handleSearch_try s term (Resolved rs) =
     (if term \<noteq> [] then s\<lparr>results := rs\<rparr>
      else s\<lparr>results := [], highlightedIndex := 0\<rparr>)\<lparr>error := None\<rparr>"
| "handleSearch_try s term (Rejected None) =
     s\<lparr>error := Some ''Something wrong with network'', results := []\<rparr>"
| "handleSearch_try s term (Rejected (Some status)) =
     (if status = 404 then s\<lparr>error := Some ''No results found''\<rparr>
      else s\<lparr>error := Some ''Something wrong with server''\<rparr>)\<lparr>results := []\<rparr>"

definition handleSearch_settle :: "ms_state \<Rightarrow> string \<Rightarrow> axios_outcome \<Rightarrow> ms_state" where
  "handleSearch_settle s term outcome = (handleSearch_try s term outcome)\<lparr>loading := False\<rparr>"

definition handleSearch :: "ms_state \<Rightarrow> string \<Rightarrow> axios_outcome \<Rightarrow> ms_state" where
  "handleSearch s term outcome = handleSearch_settle (handleSearch_start s) term outcome"

definition handleInputChange :: "ms_state \<Rightarrow> string \<Rightarrow> ms_state" where
  "handleInputChange s v = s\<lparr>searchTerm := v\<rparr>"

section \<open>Highlight formatter\<close>

text \<open>
  \<^verbatim>\<open>highlightSearchTerm\<close> splits the label with
  \<^verbatim>\<open>text.split(new RegExp(`(${searchTerm})`, "gi"))\<close> and wraps in \<^verbatim>\<open><strong>\<close> every part
  whose lower-case form equals that of the search term.

  A \<open>char\<close> stands for one UTF-16 code unit below 256, that is, for one character of
  ISO 8859-1; labels and terms with other characters are outside the model. On these
  characters \<^verbatim>\<open>toLowerCase\<close> works character by character: it maps A to Z and the
  accented capitals 0xC0 to 0xDE, except the multiplication sign 0xD7, to the character
  32 places further on, and leaves every other character alone. The \<^verbatim>\<open>i\<close> flag compares
  the upper-case forms of single characters; on these characters two of them have the
  same upper-case form exactly when they have the same lower-case form (the upper-case
  forms of 0xB5 and 0xFF lie outside the range and are shared with no other character
  of the range, and 0xDF has no upper-case form of one character).
\<close>

definition upper_case_letters :: "char list" where
  "upper_case_letters =
     ''ABCDEFGHIJKLMNOPQRSTUVWXYZ'' @
     [
      CHR 0xC0, CHR 0xC1, CHR 0xC2, CHR 0xC3, CHR 0xC4, CHR 0xC5, CHR 0xC6, CHR 0xC7,
      CHR 0xC8, CHR 0xC9, CHR 0xCA, CHR 0xCB, CHR 0xCC, CHR 0xCD, CHR 0xCE, CHR 0xCF,
      CHR 0xD0, CHR 0xD1, CHR 0xD2, CHR 0xD3, CHR 0xD4, CHR 0xD5, CHR 0xD6, CHR 0xD8,
      CHR 0xD9, CHR 0xDA, CHR 0xDB, CHR 0xDC, CHR 0xDD, CHR 0xDE]"

definition lower_case_letters :: "char list" where
  "lower_case_letters =
     ''abcdefghijklmnopqrstuvwxyz'' @
     [
      CHR 0xE0, CHR 0xE1, CHR 0xE2, CHR 0xE3, CHR 0xE4, CHR 0xE5, CHR 0xE6, CHR 0xE7,
      CHR 0xE8, CHR 0xE9, CHR 0xEA, CHR 0xEB, CHR 0xEC, CHR 0xED, CHR 0xEE, CHR 0xEF,
      CHR 0xF0, CHR 0xF1, CHR 0xF2, CHR 0xF3, CHR 0xF4, CHR 0xF5, CHR 0xF6, CHR 0xF8,
      CHR 0xF9, CHR 0xFA, CHR 0xFB, CHR 0xFC, CHR 0xFD, CHR 0xFE]"

definition toLowerCase_char :: "char \<Rightarrow> char" where
  "toLowerCase_char c =
     (case map_of (zip upper_case_letters lower_case_letters) c of
        Some l \<Rightarrow> l
      | None \<Rightarrow> c)"

definition toLowerCase :: "string \<Rightarrow> string" where
  "toLowerCase s = map toLowerCase_char s"

text \<open>
  The search term is pasted into the pattern without escaping. When it has none of the
  characters that are syntax in a regular expression, the pattern \<^verbatim>\<open>(term)\<close> with the
  flags \<^verbatim>\<open>gi\<close> matches exactly the occurrences of the term up to case, and its capture
  group is the matched text. The regular expression language itself is not modelled:
  for any other term the formatter's result is left open (\<open>None\<close>).
\<close>

definition regex_syntax_chars :: "char list" where
  "regex_syntax_chars = CHR 0x5C # ''^$.|?*+()[]{}''"

definition literal_pattern :: "string \<Rightarrow> bool" where
  "literal_pattern p = list_all (\<lambda>c. c \<notin> set regex_syntax_chars) p"

text \<open>
  \<open>match_at t rest\<close> is the match of the pattern at the start of \<open>rest\<close> (the label from
  the current position on): the matched text, if there is a match.
\<close>

definition match_at :: "string \<Rightarrow> string \<Rightarrow> string option" where
  "match_at t rest =
     (if length t \<le> length rest \<and> toLowerCase (take (length t) rest) = toLowerCase t
      then Some (take (length t) rest) else None)"

text \<open>
  \<^verbatim>\<open>String.prototype.split\<close> with a regular expression that has a capture group
  (ECMAScript, \<^verbatim>\<open>RegExp.prototype[@@split]\<close>). The label is scanned from left to right
  with two positions \<open>p \<le> q\<close>: \<open>acc\<close> holds the characters from \<open>p\<close> to \<open>q\<close>, reversed,
  and the third argument is the label from \<open>q\<close> on. Without a match at \<open>q\<close>, and also
  when the match ends at \<open>p\<close> (an empty match right after the last split point), \<open>q\<close>
  moves on by one character. Otherwise the characters between \<open>p\<close> and \<open>q\<close> and then
  the captured text are added to the result, and both positions move to the end of
  the match. The rest of the label is the last part. An empty label gives no part at
  all when the pattern matches the empty string, and the label itself otherwise.
  \<open>Between\<close> and \<open>Captured\<close> record where a part comes from; JavaScript sees the texts
  only (\<open>piece_text\<close>).
\<close>

datatype piece = Between string | Captured string

fun piece_text :: "piece \<Rightarrow> string" where
  "piece_text (Between s) = s"
| "piece_text (Captured s) = s"

function split_loop :: "string \<Rightarrow> string \<Rightarrow> string \<Rightarrow> piece list" where
  "split_loop t acc [] = [Between (rev acc)]"
| "split_loop t acc (c # cs) =
     (case match_at t (c # cs) of
        None \<Rightarrow> split_loop t (c # acc) cs
      | Some m \<Rightarrow>
          if m = [] \<and> acc = [] then split_loop t (c # acc) cs
          else Between (rev acc) # Captured m # split_loop t [] (drop (length m) (c # cs)))"
  by pat_completeness auto
termination
proof (relation "measure (\<lambda>(t, acc, rest). 2 * length rest + (if acc = [] then 0 else 1))")
  show "wf (measure (\<lambda>(t, acc, rest). 2 * length rest + (if acc = [] then 0 else 1)))"
    by simp
qed (auto simp: match_at_def neq_Nil_conv split: if_splits)

definition split_pieces :: "string \<Rightarrow> string \<Rightarrow> piece list" where
  "split_pieces t text =
     (if text = [] then (if match_at t [] = None then [Between text] else [])
      else split_loop t [] text)"

text \<open>What is rendered: plain text, or text inside \<^verbatim>\<open><strong>\<close>.\<close>

datatype segment = Plain string | Strong string

fun segment_text :: "segment \<Rightarrow> string" where
  "segment_text (Plain s) = s"
| "segment_text (Strong s) = s"

definition highlightSearchTerm :: "string \<Rightarrow> string \<Rightarrow> segment list option" where
  "highlightSearchTerm text term =
     (if literal_pattern term then
        Some (map (\<lambda>part. if toLowerCase part = toLowerCase term then Strong part
                            else Plain part)
                (map piece_text (split_pieces term text)))
      else None)"

text \<open>
  For the statements about the formatter: \<open>contains_match t g\<close> says that the term
  occurs in \<open>g\<close> up to case, at some position; \<open>piece_ok\<close> says that a captured piece
  is the term up to case and that a piece between two matches contains no occurrence.
\<close>

fun contains_match :: "string \<Rightarrow> string \<Rightarrow> bool" where
  "contains_match t [] = (match_at t [] \<noteq> None)"
| "contains_match t (c # cs) = (match_at t (c # cs) \<noteq> None \<or> contains_match t cs)"


definition piece_ok :: "string \<Rightarrow> piece \<Rightarrow> bool" where
  "piece_ok t p =
     (case p of Between g \<Rightarrow> \<not> contains_match t g
      | Captured m \<Rightarrow> toLowerCase m = toLowerCase t)"

text \<open>
  \<open>leftmost_split t ps\<close> says that the pieces \<open>ps\<close> are a split at the occurrences of
  \<open>t\<close> taken from left to right: pieces between matches and captured pieces alternate,
  from a piece between matches to a piece between matches; every captured piece is
  the term up to case; and in front of the end of a captured piece no other occurrence
  of the term ends, so that each captured piece is the first occurrence after the
  preceding one. The last piece contains no occurrence.
\<close>

fun leftmost_split :: "string \<Rightarrow> piece list \<Rightarrow> bool" where
  "leftmost_split t [Between g] = (\<not> contains_match t g)"
| "leftmost_split t (Between g # Captured m # ps) =
     (toLowerCase m = toLowerCase t \<and> \<not> contains_match t (g @ butlast m) \<and>
      leftmost_split t ps)"
| "leftmost_split t ps = False"

section \<open>Debounce hook\<close>

text \<open>
  \<^verbatim>\<open>useDebounce\<close> keeps the handle of the timer it set last in \<^verbatim>\<open>timeoutRef\<close>. The
  model has the reference, the timers of the hook that the browser still holds
  (\<open>active\<close>, each with its handle, the time it is due and the arguments its callback
  will be called with), the next handle the browser hands out (handles are positive
  integers, so a stored handle is truthy), a clock in milliseconds, and the arguments
  of the calls of the wrapped callback so far.
\<close>

record 'a timer =
  handle :: nat
  due :: nat
  args :: 'a

record 'a debounce_state =
  timeoutRef :: "nat option"
  active :: "'a timer list"
  nextHandle :: nat
  clock :: nat
  invoked :: "'a list"

definition debounce_initial :: "'a debounce_state" where
  "debounce_initial =
     \<lparr>timeoutRef = None, active = [], nextHandle = 1, clock = 0, invoked = []\<rparr>"

text \<open>
  The two browser functions, and the test \<^verbatim>\<open>if (timeoutRef.current) clearTimeout(...)\<close>
  that both the debounced function and the cleanup of the effect start with.
\<close>

definition clearTimeout :: "nat \<Rightarrow> 'a debounce_state \<Rightarrow> 'a debounce_state" where
  "clearTimeout h s = s\<lparr>active := filter (\<lambda>t. handle t \<noteq> h) (active s)\<rparr>"

definition setTimeout :: "'a \<Rightarrow> nat \<Rightarrow> 'a debounce_state \<Rightarrow> nat \<times> 'a debounce_state" where
  "setTimeout a delay s =
     (nextHandle s,
      s\<lparr>active := active s @ [\<lparr>handle = nextHandle s, due = clock s + delay, args = a\<rparr>],
        nextHandle := nextHandle s + 1\<rparr>)"

definition clear_if_set :: "'a debounce_state \<Rightarrow> 'a debounce_state" where
  "clear_if_set s =
     (case timeoutRef s of
        None \<Rightarrow> s
      | Some h \<Rightarrow> if h \<noteq> 0 then clearTimeout h s else s)"

definition debouncedCallback :: "nat \<Rightarrow> 'a \<Rightarrow> 'a debounce_state \<Rightarrow> 'a debounce_state" where
  "debouncedCallback delay a s =
     (case setTimeout a delay (clear_if_set s) of
        (h, s') \<Rightarrow> s'\<lparr>timeoutRef := Some h\<rparr>)"

definition unmount :: "'a debounce_state \<Rightarrow> 'a debounce_state" where
  "unmount s = clear_if_set s"

text \<open>
  The browser runs a timer that is due: it leaves the list of active timers and its
  callback calls the wrapped callback with the arguments of the invocation that set it.
  Nothing happens when no timer is due.
\<close>

definition timer_fires :: "'a debounce_state \<Rightarrow> 'a debounce_state" where
  "timer_fires s =
     (case find (\<lambda>t. due t \<le> clock s) (active s) of
        None \<Rightarrow> s
      | Some t \<Rightarrow>
          s\<lparr>active := filter (\<lambda>u. handle u \<noteq> handle t) (active s),
            invoked := invoked s @ [args t]\<rparr>)"

text \<open>
  What can happen to the hook: the debounced function is called, time passes, the
  browser fires a due timer, the owning component is unmounted.
\<close>

datatype 'a event = is_Call: Call 'a | Elapse nat | Fire | Unmount

fun debounce_step :: "nat \<Rightarrow> 'a debounce_state \<Rightarrow> 'a event \<Rightarrow> 'a debounce_state" where
  "debounce_step delay s (Call a) = debouncedCallback delay a s"
| "debounce_step delay s (Elapse n) = s\<lparr>clock := clock s + n\<rparr>"
| "debounce_step delay s Fire = timer_fires s"
| "debounce_step delay s Unmount = unmount s"

definition debounce_run :: "nat \<Rightarrow> 'a debounce_state \<Rightarrow> 'a event list \<Rightarrow> 'a debounce_state" where
  "debounce_run delay s es = foldl (debounce_step delay) s es"

text \<open>
  The invariant of the reachable states: at most one timer is active, and it is the
  one \<^verbatim>\<open>timeoutRef\<close> refers to.
\<close>

definition debounce_inv :: "'a debounce_state \<Rightarrow> bool" where
  "debounce_inv s \<longleftrightarrow>
     0 < nextHandle s \<and> length (active s) \<le> 1 \<and>
     (\<forall>t\<in>set (active s). handle t \<noteq> 0 \<and> timeoutRef s = Some (handle t))"

section \<open>Selection: toggle and remove\<close>

lemma toggle_absent: "option \<notin> set sel \<Longrightarrow> toggle (toggle sel option) option = sel"
  by (auto simp: toggle_def filter_id_conv)

lemma toggle_present:
  "option \<in> set sel \<Longrightarrow>
   toggle (toggle sel option) option = filter (\<lambda>item. item \<noteq> option) sel @ [option]"
  by (simp add: toggle_def)


text \<open>
  C2, as the specification states it: toggling a label twice gives back the selection
  with its original contents and order. This fails when the label is selected and is
  not the last one: the first toggle removes it, the second appends it at the end.
\<close>

theorem toggle_twice_counterexample:
  "toggle (toggle [''a'', ''b''] ''a'') ''a'' \<noteq> [''a'', ''b'']"
  by (simp add: toggle_def)

lemma filter_other_append_last:
  assumes "distinct sel" "option \<in> set sel"
  shows "filter (\<lambda>item. item \<noteq> option) sel @ [option] = sel \<longleftrightarrow> last sel = option"
proof
  assume "filter (\<lambda>item. item \<noteq> option) sel @ [option] = sel"
  then have "last sel = last (filter (\<lambda>item. item \<noteq> option) sel @ [option])"
    by simp
  then show "last sel = option" by simp
next
  assume l: "last sel = option"
  from assms(2) have ne: "sel \<noteq> []" by auto
  then have sel: "sel = butlast sel @ [option]"
    using l append_butlast_last_id [of sel] by simp
  with assms(1) have "distinct (butlast sel @ [option])" by simp
  then have "option \<notin> set (butlast sel)" by simp
  then have "filter (\<lambda>item. item \<noteq> option) (butlast sel) = butlast sel"
    by (auto simp: filter_id_conv)
  then have "filter (\<lambda>item. item \<noteq> option) (butlast sel @ [option]) = butlast sel"
    by simp
  with sel show "filter (\<lambda>item. item \<noteq> option) sel @ [option] = sel"
    by simp
qed

text \<open>
  C2, amended: toggling a label twice gives back the same set of labels. The sequence
  itself comes back when the label was not selected; when it was selected, it ends up
  at the end and the other labels keep their order, so a duplicate-free selection
  comes back unchanged exactly when the label was absent or was its last element.
\<close>

theorem toggle_twice:
  "set (toggle (toggle sel option) option) = set sel \<and>
   (option \<notin> set sel \<longrightarrow> toggle (toggle sel option) option = sel) \<and>
   (option \<in> set sel \<longrightarrow>
      toggle (toggle sel option) option = filter (\<lambda>item. item \<noteq> option) sel @ [option]) \<and>
   (distinct sel \<longrightarrow>
      (toggle (toggle sel option) option = sel \<longleftrightarrow> option \<notin> set sel \<or> last sel = option))"
proof (cases "option \<in> set sel")
  case True
  then have t: "toggle (toggle sel option) option = filter (\<lambda>item. item \<noteq> option) sel @ [option]"
    by (rule toggle_present)
  have "set (filter (\<lambda>item. item \<noteq> option) sel @ [option]) = set sel"
    using True by auto
  with t True show ?thesis
    by (simp add: filter_other_append_last)
next
  case False
  then have "toggle (toggle sel option) option = sel"
    by (rule toggle_absent)
  with False show ?thesis by simp
qed

theorem toggle_twice_witness:
  "''a'' \<in> set [''a'', ''b''] \<and> ''c'' \<notin> set [''a'', ''b''] \<and> distinct [''a'', ''b''] \<and>
   toggle (toggle [''a'', ''b''] ''a'') ''a'' = [''b'', ''a''] \<and>
   toggle (toggle [''a'', ''b''] ''c'') ''c'' = [''a'', ''b''] \<and>
   toggle (toggle [''a'', ''b''] ''b'') ''b'' = [''a'', ''b'']"
  using toggle_twice [of "[''a'', ''b'']" "''a''"] toggle_twice [of "[''a'', ''b'']" "''c''"]
    toggle_twice [of "[''a'', ''b'']" "''b''"]
  by simp

lemma filter_mem_filter: "filter (\<lambda>x. x \<in> set (filter P xs)) xs = filter P xs"
  by (induction xs) (auto intro: filter_cong)

lemma filter_mem_self: "filter (\<lambda>x. x \<in> set xs) (filter P xs) = filter P xs"
proof -
  have "\<forall>x \<in> set (filter P xs). x \<in> set xs" by simp
  then show ?thesis by (simp only: filter_id_conv)
qed

lemma remove_option_order:
  "filter (\<lambda>x. x \<in> set (remove_option sel option)) sel =
   filter (\<lambda>x. x \<in> set sel) (remove_option sel option)"
  unfolding remove_option_def by (simp only: filter_mem_filter filter_mem_self)

lemma toggle_order:
  "filter (\<lambda>x. x \<in> set (toggle sel option)) sel =
   filter (\<lambda>x. x \<in> set sel) (toggle sel option)"
proof (cases "option \<in> set sel")
  case True
  then have "toggle sel option = remove_option sel option"
    by (simp add: toggle_def remove_option_def)
  then show ?thesis by (simp only: remove_option_order)
next
  case False
  then have t: "toggle sel option = sel @ [option]" by (simp add: toggle_def)
  have "filter (\<lambda>x. x \<in> set (sel @ [option])) sel = sel"
    by (auto simp: filter_id_conv)
  moreover have "filter (\<lambda>x. x \<in> set sel) (sel @ [option]) = sel"
    using False by (auto simp: filter_id_conv)
  ultimately show ?thesis using t by simp
qed

text \<open>
  C8: on a duplicate-free selection, \<open>toggle\<close> and \<open>remove_option\<close> give a
  duplicate-free selection, and the labels that are in both the old and the new
  selection stand in the same order in both. A removal leaves a subsequence of the old
  selection; a toggle leaves a subsequence or extends the old selection at the end.
\<close>

theorem selection_unique_ordered:
  "distinct sel \<Longrightarrow>
   distinct (toggle sel option) \<and> distinct (remove_option sel option) \<and>
   filter (\<lambda>x. x \<in> set (toggle sel option)) sel =
     filter (\<lambda>x. x \<in> set sel) (toggle sel option) \<and>
   filter (\<lambda>x. x \<in> set (remove_option sel option)) sel =
     filter (\<lambda>x. x \<in> set sel) (remove_option sel option) \<and>
   subseq (remove_option sel option) sel \<and>
   (subseq (toggle sel option) sel \<or> toggle sel option = sel @ [option])"
proof -
  assume d: "distinct sel"
  have "distinct (toggle sel option)"
    using d by (simp add: toggle_def)
  moreover have "distinct (remove_option sel option)"
    using d by (simp add: remove_option_def)
  moreover have "subseq (remove_option sel option) sel"
    by (simp add: remove_option_def)
  moreover have "subseq (toggle sel option) sel \<or> toggle sel option = sel @ [option]"
    by (simp add: toggle_def)
  ultimately show ?thesis
    using toggle_order [of sel option] remove_option_order [of sel option] by simp
qed

theorem selection_unique_ordered_witness:
  "distinct [''a'', ''b'', ''c''] \<and>
   toggle [''a'', ''b'', ''c''] ''b'' = [''a'', ''c''] \<and>
   toggle [''a'', ''b'', ''c''] ''d'' = [''a'', ''b'', ''c'', ''d''] \<and>
   remove_option [''a'', ''b'', ''c''] ''a'' = [''b'', ''c''] \<and>
   distinct (toggle [''a'', ''b'', ''c''] ''b'') \<and>
   distinct (remove_option [''a'', ''b'', ''c''] ''a'') \<and>
   subseq (remove_option [''a'', ''b'', ''c''] ''a'') [''a'', ''b'', ''c'']"
  using selection_unique_ordered [of "[''a'', ''b'', ''c'']" "''b''"]
    selection_unique_ordered [of "[''a'', ''b'', ''c'']" "''a''"]
  by (simp add: toggle_def remove_option_def)


section \<open>Keyboard navigation: the highlighted index\<close>

text \<open>
  C6, as the specification states it, has Tab and Shift+Tab move the index by one and
  clamp it, for every starting index. From the initial state (no results, index 0)
  ArrowDown sets the index to \<open>min 1 (0 - 1) = -1\<close>; Shift+Tab then leaves it at \<open>-1\<close>,
  which is neither one less nor clamped to 0 (ArrowUp, from the same state, gives 0).
\<close>

theorem tab_clamp_counterexample:
  "highlightedIndex (handleKeyDown (handleKeyDown initial_state ArrowDown False) Tab True) = - 1 \<and>
   highlightedIndex (handleKeyDown (handleKeyDown initial_state ArrowDown False) ArrowUp False) = 0"
  by (simp add: initial_state_def)

text \<open>
  C6, amended: for every results list and every starting index, ArrowDown sets the
  index to \<open>min (i + 1) (length results - 1)\<close>, which is never above
  \<open>length results - 1\<close>, and ArrowUp sets it to \<open>max (i - 1) 0\<close>, which is never below 0.
  Tab without modifier adds one when \<open>i < length results - 1\<close> and otherwise leaves the
  index as it is; that is the clamped increment whenever \<open>i \<le> length results - 1\<close>.
  Shift+Tab subtracts one when \<open>0 < i\<close> and otherwise leaves the index as it is; that
  is the clamped decrement whenever \<open>0 \<le> i\<close>.
\<close>

theorem navigation_keys:
  "highlightedIndex (handleKeyDown s ArrowDown sh) =
     min (highlightedIndex s + 1) (int (length (results s)) - 1) \<and>
   highlightedIndex (handleKeyDown s ArrowDown sh) \<le> int (length (results s)) - 1 \<and>
   highlightedIndex (handleKeyDown s ArrowUp sh) = max (highlightedIndex s - 1) 0 \<and>
   0 \<le> highlightedIndex (handleKeyDown s ArrowUp sh) \<and>
   highlightedIndex (handleKeyDown s Tab False) =
     (if highlightedIndex s < int (length (results s)) - 1 then highlightedIndex s + 1
      else highlightedIndex s) \<and>
   (highlightedIndex s \<le> int (length (results s)) - 1 \<longrightarrow>
      highlightedIndex (handleKeyDown s Tab False) =
        min (highlightedIndex s + 1) (int (length (results s)) - 1)) \<and>
   highlightedIndex (handleKeyDown s Tab True) =
     (if 0 < highlightedIndex s then highlightedIndex s - 1 else highlightedIndex s) \<and>
   (0 \<le> highlightedIndex s \<longrightarrow>
      highlightedIndex (handleKeyDown s Tab True) = max (highlightedIndex s - 1) 0)"
  by simp

theorem navigation_keys_witness:
  "highlightedIndex (initial_state\<lparr>results := [rick, morty], highlightedIndex := 1\<rparr>)
     \<le> int (length (results (initial_state\<lparr>results := [rick, morty], highlightedIndex := 1\<rparr>))) - 1 \<and>
   0 \<le> highlightedIndex (initial_state\<lparr>results := [rick, morty], highlightedIndex := 1\<rparr>) \<and>
   highlightedIndex
     (handleKeyDown (initial_state\<lparr>results := [rick, morty], highlightedIndex := 1\<rparr>) Tab False) = 1 \<and>
   highlightedIndex
     (handleKeyDown (initial_state\<lparr>results := [rick, morty], highlightedIndex := 1\<rparr>) Tab True) = 0 \<and>
   highlightedIndex
     (handleKeyDown (initial_state\<lparr>results := [rick, morty], highlightedIndex := 1\<rparr>) ArrowDown False) = 1"
  using navigation_keys
    [of "initial_state\<lparr>results := [rick, morty], highlightedIndex := 1\<rparr>" False]
  by (simp add: initial_state_def)

section \<open>Keyboard: Enter and Backspace\<close>

text \<open>
  C10: when there is no result at the highlighted index (the index is negative or at
  least the length of the results, which covers the empty list), Enter changes nothing:
  the state after the event is the state before it.
\<close>

theorem enter_without_result:
  "highlightedIndex s < 0 \<or> int (length (results s)) \<le> highlightedIndex s \<Longrightarrow>
   result_at (results s) (highlightedIndex s) = None \<and> handleKeyDown s Enter sh = s"
  by (auto simp: result_at_def)

theorem enter_without_result_witness:
  "int (length (results initial_state)) \<le> highlightedIndex initial_state \<and>
   handleKeyDown initial_state Enter False = initial_state"
  using enter_without_result [of initial_state False]
  by (simp add: initial_state_def)

lemma remove_last_shorter:
  "sel \<noteq> [] \<Longrightarrow> length (remove_option sel (last sel)) < length sel"
proof -
  assume "sel \<noteq> []"
  then have "last sel \<in> set sel" by simp
  then show ?thesis
    unfolding remove_option_def by (simp add: length_filter_less)
qed

lemma remove_last_distinct:
  "distinct sel \<Longrightarrow> sel \<noteq> [] \<Longrightarrow> remove_option sel (last sel) = butlast sel"
proof -
  assume d: "distinct sel" and ne: "sel \<noteq> []"
  then have sel: "sel = butlast sel @ [last sel]" by simp
  with d have "distinct (butlast sel @ [last sel])" by simp
  then have "last sel \<notin> set (butlast sel)" by simp
  then have "filter (\<lambda>item. item \<noteq> last sel) (butlast sel) = butlast sel"
    by (auto simp: filter_id_conv)
  then have "filter (\<lambda>item. item \<noteq> last sel) (butlast sel @ [last sel]) = butlast sel"
    by simp
  with sel show ?thesis by (simp add: remove_option_def)
qed

text \<open>
  C7: Backspace changes the selection if and only if the search term is empty and the
  selection is not empty. It then removes the label at the end of the selection, the
  most recently added one: that label is no longer selected, and a duplicate-free
  selection loses exactly its last element. In every other case, in particular with a
  non-empty search term, the state is unchanged.
\<close>

theorem backspace_removes_last:
  "(selectedOptions (handleKeyDown s Backspace sh) \<noteq> selectedOptions s
      \<longleftrightarrow> searchTerm s = [] \<and> selectedOptions s \<noteq> []) \<and>
   (searchTerm s = [] \<and> selectedOptions s \<noteq> [] \<longrightarrow>
      handleKeyDown s Backspace sh =
        s\<lparr>selectedOptions := remove_option (selectedOptions s) (last (selectedOptions s))\<rparr> \<and>
      last (selectedOptions s) \<notin> set (selectedOptions (handleKeyDown s Backspace sh)) \<and>
      (distinct (selectedOptions s) \<longrightarrow>
         selectedOptions (handleKeyDown s Backspace sh) = butlast (selectedOptions s))) \<and>
   (searchTerm s \<noteq> [] \<or> selectedOptions s = [] \<longrightarrow> handleKeyDown s Backspace sh = s)"
proof (cases "searchTerm s = [] \<and> selectedOptions s \<noteq> []")
  case True
  then have h: "handleKeyDown s Backspace sh =
      s\<lparr>selectedOptions := remove_option (selectedOptions s) (last (selectedOptions s))\<rparr>"
    by (simp add: handleRemoveOption_def)
  have "length (remove_option (selectedOptions s) (last (selectedOptions s)))
          < length (selectedOptions s)"
    using True by (simp add: remove_last_shorter)
  then have "remove_option (selectedOptions s) (last (selectedOptions s)) \<noteq> selectedOptions s"
    by auto
  moreover have "last (selectedOptions s)
      \<notin> set (remove_option (selectedOptions s) (last (selectedOptions s)))"
    by (simp add: remove_option_def)
  ultimately show ?thesis
    using True h by (simp add: remove_last_distinct)
next
  case False
  then have "handleKeyDown s Backspace sh = s" by auto
  with False show ?thesis by auto
qed

theorem backspace_removes_last_witness:
  "searchTerm (initial_state\<lparr>selectedOptions := [''Rick'', ''Morty'']\<rparr>) = [] \<and>
   selectedOptions (initial_state\<lparr>selectedOptions := [''Rick'', ''Morty'']\<rparr>) \<noteq> [] \<and>
   distinct (selectedOptions (initial_state\<lparr>selectedOptions := [''Rick'', ''Morty'']\<rparr>)) \<and>
   selectedOptions
     (handleKeyDown (initial_state\<lparr>selectedOptions := [''Rick'', ''Morty'']\<rparr>) Backspace False)
     = [''Rick''] \<and>
   searchTerm (initial_state\<lparr>selectedOptions := [''Rick''], searchTerm := ''mo''\<rparr>) \<noteq> [] \<and>
   handleKeyDown (initial_state\<lparr>selectedOptions := [''Rick''], searchTerm := ''mo''\<rparr>)
       Backspace False
     = initial_state\<lparr>selectedOptions := [''Rick''], searchTerm := ''mo''\<rparr>"
  using backspace_removes_last
      [of "initial_state\<lparr>selectedOptions := [''Rick'', ''Morty'']\<rparr>" False]
    backspace_removes_last
      [of "initial_state\<lparr>selectedOptions := [''Rick''], searchTerm := ''mo''\<rparr>" False]
  by (simp add: initial_state_def handleRemoveOption_def remove_option_def)


section \<open>Remote search: errors and the loading flag\<close>

text \<open>
  C4: a rejected request sets exactly one of three messages. Without a response the
  message is "Something wrong with network", with status 404 it is "No results found",
  with any other status it is "Something wrong with server"; the results are empty
  after each of them.
\<close>

theorem search_error_messages:
  "error (handleSearch s term (Rejected None)) = Some ''Something wrong with network'' \<and>
   error (handleSearch s term (Rejected (Some 404))) = Some ''No results found'' \<and>
   (status \<noteq> 404 \<longrightarrow>
      error (handleSearch s term (Rejected (Some status))) = Some ''Something wrong with server'') \<and>
   results (handleSearch s term (Rejected r)) = []"
proof -
  have "results (handleSearch s term (Rejected r)) = []"
    by (cases r) (simp_all add: handleSearch_def handleSearch_settle_def)
  then show ?thesis
    by (simp add: handleSearch_def handleSearch_settle_def)
qed

theorem search_error_messages_witness:
  "(500::int) \<noteq> 404 \<and>
   error (handleSearch initial_state ''zzz'' (Rejected (Some 500)))
     = Some ''Something wrong with server'' \<and>
   results (handleSearch initial_state ''zzz'' (Rejected (Some 500))) = []"
  using search_error_messages [of initial_state "''zzz''" 500 "Some 500"]
  by simp

text \<open>
  C5: the loading flag is true in the state the callback leaves before the request,
  and false in the state it leaves when the request has settled, whatever the outcome
  and whatever happened to the state in between; so it is false after the whole query.
\<close>

theorem loading_flag:
  "loading (handleSearch_start s) \<and>
   \<not> loading (handleSearch_settle s' term outcome) \<and>
   \<not> loading (handleSearch s term outcome)"
  by (simp add: handleSearch_def handleSearch_settle_def handleSearch_start_def)

section \<open>The highlighted index across searches\<close>

text \<open>
  C1 says that the highlighted index is within \<open>[0, length results - 1]\<close> whenever
  there are results, and is 0 again whenever the results become empty. The code does
  not keep this. The user types "r", three results arrive, ArrowDown twice moves the
  index to 2; then the user types "ri" and
  \<^item> one result arrives: the results are replaced and the index stays 2, outside
    \<open>[0, 0]\<close>, so that Enter finds no result there;
  \<^item> or the request fails with status 404: the results are cleared and the index
    stays 2, where the branch for an empty term sets it to 0.
\<close>

theorem stale_highlighted_index:
  "highlightedIndex
     (handleKeyDown (handleKeyDown
        (handleSearch (handleInputChange initial_state ''r'') ''r'' (Resolved [rick, morty, ricky]))
        ArrowDown False) ArrowDown False) = 2 \<and>
   results
     (handleSearch (handleInputChange
        (handleKeyDown (handleKeyDown
          (handleSearch (handleInputChange initial_state ''r'') ''r'' (Resolved [rick, morty, ricky]))
          ArrowDown False) ArrowDown False) ''ri'') ''ri'' (Resolved [rick])) = [rick] \<and>
   highlightedIndex
     (handleSearch (handleInputChange
        (handleKeyDown (handleKeyDown
          (handleSearch (handleInputChange initial_state ''r'') ''r'' (Resolved [rick, morty, ricky]))
          ArrowDown False) ArrowDown False) ''ri'') ''ri'' (Resolved [rick])) = 2 \<and>
   results
     (handleSearch (handleInputChange
        (handleKeyDown (handleKeyDown
          (handleSearch (handleInputChange initial_state ''r'') ''r'' (Resolved [rick, morty, ricky]))
          ArrowDown False) ArrowDown False) ''ri'') ''ri'' (Rejected (Some 404))) = [] \<and>
   highlightedIndex
     (handleSearch (handleInputChange
        (handleKeyDown (handleKeyDown
          (handleSearch (handleInputChange initial_state ''r'') ''r'' (Resolved [rick, morty, ricky]))
          ArrowDown False) ArrowDown False) ''ri'') ''ri'' (Rejected (Some 404))) = 2"
  by (simp add: initial_state_def handleInputChange_def handleSearch_def
      handleSearch_settle_def handleSearch_start_def)

section \<open>Highlight formatter: the rendered segments\<close>

lemma length_toLowerCase: "length (toLowerCase s) = length s"
  by (simp add: toLowerCase_def)

lemma match_at_Some:
  "match_at t rest = Some m \<Longrightarrow>
   m = take (length t) rest \<and> length m = length t \<and> toLowerCase m = toLowerCase t"
  by (auto simp: match_at_def split: if_splits)

lemma match_at_append: "match_at t u \<noteq> None \<Longrightarrow> match_at t (u @ v) \<noteq> None"
  by (auto simp: match_at_def split: if_splits)

lemma match_at_same_case: "toLowerCase g = toLowerCase t \<Longrightarrow> match_at t g = Some g"
proof -
  assume e: "toLowerCase g = toLowerCase t"
  then have "length g = length t"
    using length_toLowerCase [of g] length_toLowerCase [of t] by simp
  with e show ?thesis by (simp add: match_at_def)
qed

lemma concat_split_loop:
  "concat (map piece_text (split_loop t acc rest)) = rev acc @ rest"
proof (induction t acc rest rule: split_loop.induct)
  case (1 t acc)
  show ?case by simp
next
  case (2 t acc c cs)
  show ?case
  proof (cases "match_at t (c # cs)")
    case None
    with 2 show ?thesis by simp
  next
    case (Some m)
    then have m: "m = take (length t) (c # cs)" "length m = length t"
      by (auto dest: match_at_Some)
    show ?thesis
    proof (cases "m = [] \<and> acc = []")
      case True
      with 2 Some show ?thesis by simp
    next
      case False
      have "m @ drop (length m) (c # cs) = c # cs"
        using m by (metis append_take_drop_id)
      moreover have "split_loop t acc (c # cs) =
          Between (rev acc) # Captured m # split_loop t [] (drop (length m) (c # cs))"
        by (simp add: Some if_not_P [OF False])
      ultimately show ?thesis
        using 2(3) [OF Some False] by simp
    qed
  qed
qed

lemma concat_split_pieces: "concat (map piece_text (split_pieces t text)) = text"
  by (simp add: split_pieces_def concat_split_loop)

lemma contains_match_index:
  "contains_match t g \<Longrightarrow> \<exists>i\<le>length g. match_at t (drop i g) \<noteq> None"
proof (induction g)
  case Nil
  then show ?case by simp
next
  case (Cons c cs)
  show ?case
  proof (cases "match_at t (c # cs) = None")
    case False
    then have "match_at t (drop 0 (c # cs)) \<noteq> None" by simp
    then show ?thesis by blast
  next
    case True
    with Cons.prems have "contains_match t cs" by simp
    then obtain i where "i \<le> length cs" "match_at t (drop i cs) \<noteq> None"
      using Cons.IH by blast
    then have "Suc i \<le> length (c # cs) \<and> match_at t (drop (Suc i) (c # cs)) \<noteq> None"
      by simp
    then show ?thesis by blast
  qed
qed

lemma no_match_in_prefix:
  assumes t: "t \<noteq> []"
    and inv: "\<forall>i<length g. match_at t (drop i (g @ rest)) = None"
  shows "\<not> contains_match t g"
proof
  assume "contains_match t g"
  then obtain i where i: "i \<le> length g" "match_at t (drop i g) \<noteq> None"
    using contains_match_index by blast
  then have "length t \<le> length (drop i g)"
    by (auto simp: match_at_def split: if_splits)
  with t i(1) have "i < length g"
    by (cases t) auto
  moreover have "match_at t (drop i g @ rest) \<noteq> None"
    using i(2) by (rule match_at_append)
  ultimately show False
    using inv i(1) by simp
qed

lemma split_loop_pieces:
  "t \<noteq> [] \<Longrightarrow> \<forall>i<length acc. match_at t (drop i (rev acc @ rest)) = None \<Longrightarrow>
   p \<in> set (split_loop t acc rest) \<Longrightarrow> piece_ok t p"
proof (induction t acc rest rule: split_loop.induct)
  case (1 t acc)
  then have "\<not> contains_match t (rev acc)"
    using no_match_in_prefix [of t "rev acc" "[]"] by simp
  with 1 show ?case by (simp add: piece_ok_def)
next
  case (2 t acc c cs)
  show ?case
  proof (cases "match_at t (c # cs)")
    case None
    have "\<forall>i<length (c # acc). match_at t (drop i (rev (c # acc) @ cs)) = None"
    proof (intro allI impI)
      fix i assume "i < length (c # acc)"
      then consider "i < length acc" | "i = length acc" by fastforce
      then show "match_at t (drop i (rev (c # acc) @ cs)) = None"
      proof cases
        case 1
        with "2.prems"(2) show ?thesis by simp
      next
        case 2
        with None show ?thesis by simp
      qed
    qed
    with 2 None show ?thesis by simp
  next
    case (Some m)
    then have m: "length m = length t" "toLowerCase m = toLowerCase t"
      by (auto dest: match_at_Some)
    with "2.prems"(1) have ne: "\<not> (m = [] \<and> acc = [])" by auto
    have gap: "\<not> contains_match t (rev acc)"
      using "2.prems"(1,2) no_match_in_prefix [of t "rev acc" "c # cs"] by simp
    from "2.prems"(3) Some ne
    consider "p = Between (rev acc)" | "p = Captured m"
      | "p \<in> set (split_loop t [] (drop (length m) (c # cs)))"
      by auto
    then show ?thesis
    proof cases
      case 1
      with gap show ?thesis by (simp add: piece_ok_def)
    next
      case 2
      with m show ?thesis by (simp add: piece_ok_def)
    next
      case 3
      with "2.IH"(3) [OF Some ne "2.prems"(1)] show ?thesis by simp
    qed
  qed
qed

lemma split_pieces_ok:
  "t \<noteq> [] \<Longrightarrow> p \<in> set (split_pieces t text) \<Longrightarrow> piece_ok t p"
proof -
  assume t: "t \<noteq> []" and p: "p \<in> set (split_pieces t text)"
  show ?thesis
  proof (cases "text = []")
    case True
    with t p have "p = Between []"
      by (auto simp: split_pieces_def match_at_def split: if_splits)
    with t show ?thesis
      by (simp add: piece_ok_def match_at_def)
  next
    case False
    with p have "p \<in> set (split_loop t [] text)" by (simp add: split_pieces_def)
    with t show ?thesis using split_loop_pieces [of t "[]" "text" p] by simp
  qed
qed

lemma no_match_before:
  assumes t: "t \<noteq> []"
    and inv: "\<forall>i<k. match_at t (drop i (g @ r)) = None"
    and len: "length g < k + length t"
  shows "\<not> contains_match t g"
proof
  assume "contains_match t g"
  then obtain i where i: "i \<le> length g" "match_at t (drop i g) \<noteq> None"
    using contains_match_index by blast
  then have "length t \<le> length (drop i g)"
    by (auto simp: match_at_def split: if_splits)
  with len i(1) have "i < k" by simp
  with inv have "match_at t (drop i (g @ r)) = None" by blast
  moreover have "drop i (g @ r) = drop i g @ r"
    using i(1) by simp
  moreover have "match_at t (drop i g @ r) \<noteq> None"
    using i(2) by (rule match_at_append)
  ultimately show False by simp
qed

lemma butlast_match_prefix:
  assumes "match_at t rest = Some m" "t \<noteq> []"
  shows "butlast m @ drop (length t - 1) rest = rest \<and> length (butlast m) = length t - 1"
proof -
  from assms(1) have m: "m = take (length t) rest" "length t \<le> length rest"
    by (auto simp: match_at_def split: if_splits)
  then have "butlast m = take (length t - 1) rest"
    by (simp add: butlast_take)
  with m(2) show ?thesis by simp
qed

lemma split_loop_leftmost:
  "t \<noteq> [] \<Longrightarrow> \<forall>i<length acc. match_at t (drop i (rev acc @ rest)) = None \<Longrightarrow>
   leftmost_split t (split_loop t acc rest)"
proof (induction t acc rest rule: split_loop.induct)
  case (1 t acc)
  then have "\<not> contains_match t (rev acc)"
    using no_match_in_prefix [of t "rev acc" "[]"] by simp
  then show ?case by simp
next
  case (2 t acc c cs)
  show ?case
  proof (cases "match_at t (c # cs)")
    case None
    have "\<forall>i<length (c # acc). match_at t (drop i (rev (c # acc) @ cs)) = None"
    proof (intro allI impI)
      fix i assume "i < length (c # acc)"
      then consider "i < length acc" | "i = length acc" by fastforce
      then show "match_at t (drop i (rev (c # acc) @ cs)) = None"
      proof cases
        case 1
        with "2.prems"(2) show ?thesis by simp
      next
        case 2
        with None show ?thesis by simp
      qed
    qed
    with 2 None show ?thesis by simp
  next
    case (Some m)
    then have m: "length m = length t" "toLowerCase m = toLowerCase t"
      by (auto dest: match_at_Some)
    with "2.prems"(1) have ne: "\<not> (m = [] \<and> acc = [])" by auto
    have b: "butlast m @ drop (length t - 1) (c # cs) = c # cs"
        "length (butlast m) = length t - 1"
      using butlast_match_prefix [OF Some "2.prems"(1)] by simp_all
    have "\<forall>i<length acc.
        match_at t (drop i ((rev acc @ butlast m) @ drop (length t - 1) (c # cs))) = None"
      using "2.prems"(2) b(1) by simp
    moreover have "length (rev acc @ butlast m) < length acc + length t"
      using b(2) "2.prems"(1) by (cases t) simp_all
    ultimately have gap: "\<not> contains_match t (rev acc @ butlast m)"
      using no_match_before [OF "2.prems"(1)] by blast
    have rec: "leftmost_split t (split_loop t [] (drop (length m) (c # cs)))"
      using "2.IH"(3) [OF Some ne "2.prems"(1)] by simp
    have "split_loop t acc (c # cs) =
        Between (rev acc) # Captured m # split_loop t [] (drop (length m) (c # cs))"
      by (simp add: Some if_not_P [OF ne])
    with m(2) gap rec show ?thesis by simp
  qed
qed

lemma split_pieces_leftmost:
  "t \<noteq> [] \<Longrightarrow> leftmost_split t (split_pieces t text)"
proof (cases "text = []")
  case True
  assume "t \<noteq> []"
  with True show ?thesis by (simp add: split_pieces_def match_at_def)
next
  case False
  assume "t \<noteq> []"
  with False show ?thesis
    using split_loop_leftmost [of t "[]" "text"] by (simp add: split_pieces_def)
qed

lemma split_loop_empty_term:
  "split_loop [] [a] rest = Between [a] # concat (map (\<lambda>d. [Captured [], Between [d]]) rest)"
  by (induction rest arbitrary: a) (simp_all add: match_at_def toLowerCase_def)

lemma split_pieces_empty_term:
  "split_pieces [] text =
     (case text of [] \<Rightarrow> []
      | c # cs \<Rightarrow> Between [c] # concat (map (\<lambda>d. [Captured [], Between [d]]) cs))"
  by (cases "text") (simp_all add: split_pieces_def match_at_def toLowerCase_def split_loop_empty_term)

lemma no_match_not_same_case:
  "\<not> contains_match t g \<Longrightarrow> toLowerCase g \<noteq> toLowerCase t"
proof
  assume n: "\<not> contains_match t g" and "toLowerCase g = toLowerCase t"
  then have "match_at t g = Some g" by (simp add: match_at_same_case)
  then have "contains_match t g" by (cases g) simp_all
  with n show False by simp
qed

lemma emphasis_of_pieces:
  assumes "t \<noteq> []"
  shows "map (\<lambda>part. if toLowerCase part = toLowerCase t then Strong part else Plain part)
           (map piece_text (split_pieces t text)) =
         map (\<lambda>p. case p of Between g \<Rightarrow> Plain g | Captured m \<Rightarrow> Strong m)
           (split_pieces t text)"
proof -
  have "(if toLowerCase (piece_text p) = toLowerCase t then Strong (piece_text p)
         else Plain (piece_text p)) =
        (case p of Between g \<Rightarrow> Plain g | Captured m \<Rightarrow> Strong m)"
    if "p \<in> set (split_pieces t text)" for p
  proof -
    from that assms have ok: "piece_ok t p" by (simp add: split_pieces_ok)
    show ?thesis
    proof (cases p)
      case (Between g)
      with ok have "toLowerCase g \<noteq> toLowerCase t"
        by (simp add: piece_ok_def no_match_not_same_case)
      with Between show ?thesis by simp
    next
      case (Captured m)
      with ok show ?thesis by (simp add: piece_ok_def)
    qed
  qed
  then show ?thesis by simp
qed

lemma emphasis_empty_term:
  "map (\<lambda>part. if toLowerCase part = toLowerCase [] then Strong part else Plain part)
     (map piece_text (split_pieces [] text)) =
   (case text of [] \<Rightarrow> []
    | c # cs \<Rightarrow> Plain [c] # concat (map (\<lambda>d. [Strong [], Plain [d]]) cs))"
proof (cases "text")
  case Nil
  then show ?thesis by (simp add: split_pieces_empty_term)
next
  case (Cons c cs)
  have "map (\<lambda>part. if toLowerCase part = toLowerCase [] then Strong part else Plain part)
          (map piece_text (concat (map (\<lambda>d. [Captured [], Between [d]]) ds))) =
        concat (map (\<lambda>d. [Strong [], Plain [d]]) ds)" for ds :: string
    by (induction ds) (simp_all add: toLowerCase_def)
  with Cons show ?thesis
    by (simp add: split_pieces_empty_term toLowerCase_def)
qed

lemma concat_segment_text:
  "concat (map segment_text
     (map (\<lambda>part. if toLowerCase part = toLowerCase t then Strong part else Plain part) ps)) =
   concat ps"
  by (induction ps) simp_all

text \<open>
  C3, as the specification states it: with an empty search term the label is left
  unsplit and nothing is emphasized. For the label "ab" the formatter gives three
  segments, the two characters and an empty emphasized segment between them.
\<close>

theorem highlight_empty_term_counterexample:
  "highlightSearchTerm ''ab'' [] = Some [Plain ''a'', Strong [], Plain ''b''] \<and>
   highlightSearchTerm ''ab'' [] \<noteq> Some [Plain ''ab'']"
  by (simp add: highlightSearchTerm_def literal_pattern_def split_pieces_def match_at_def
      toLowerCase_def)

text \<open>
  C3, amended, for every label and every search term of ISO 8859-1 characters in which
  the term has no character that is syntax in a regular expression. The segments, put
  together, are the label.
  With an empty term a label of \<open>n > 0\<close> characters is split into its \<open>n\<close> characters,
  each plain, with an empty emphasized segment between any two of them, and the empty
  label gives no segment: no character is emphasized. With a non-empty term the label
  is split at the occurrences of the term up to case, taken from left to right without
  overlap: the emphasized segments are exactly the matched pieces, each equal to the
  term up to case and each the first occurrence after the preceding one, and the plain
  segments are the pieces between them, none of which contains an occurrence of the
  term.
\<close>

theorem highlight_segments:
  "literal_pattern term \<Longrightarrow>
   \<exists>segs. highlightSearchTerm text term = Some segs \<and>
     concat (map segment_text segs) = text \<and>
     (term = [] \<longrightarrow>
        segs = (case text of [] \<Rightarrow> []
                | c # cs \<Rightarrow> Plain [c] # concat (map (\<lambda>d. [Strong [], Plain [d]]) cs))) \<and>
     (term \<noteq> [] \<longrightarrow>
        segs = map (\<lambda>p. case p of Between g \<Rightarrow> Plain g | Captured m \<Rightarrow> Strong m)
                 (split_pieces term text) \<and>
        leftmost_split term (split_pieces term text) \<and>
        (\<forall>p\<in>set (split_pieces term text). piece_ok term p))"
proof -
  assume lit: "literal_pattern term"
  let ?segs = "map (\<lambda>part. if toLowerCase part = toLowerCase term then Strong part
                            else Plain part)
                 (map piece_text (split_pieces term text))"
  have h: "highlightSearchTerm text term = Some ?segs"
    using lit by (simp add: highlightSearchTerm_def)
  have c: "concat (map segment_text ?segs) = text"
    by (simp only: concat_segment_text concat_split_pieces)
  have e: "term = [] \<longrightarrow>
      ?segs = (case text of [] \<Rightarrow> []
               | c # cs \<Rightarrow> Plain [c] # concat (map (\<lambda>d. [Strong [], Plain [d]]) cs))"
    using emphasis_empty_term [of "text"] by simp
  have n: "term \<noteq> [] \<longrightarrow>
      ?segs = map (\<lambda>p. case p of Between g \<Rightarrow> Plain g | Captured m \<Rightarrow> Strong m)
                (split_pieces term text) \<and>
      leftmost_split term (split_pieces term text) \<and>
      (\<forall>p\<in>set (split_pieces term text). piece_ok term p)"
    using emphasis_of_pieces [of "term" "text"] split_pieces_ok [of "term" _ "text"]
      split_pieces_leftmost [of "term" "text"]
    by blast
  from h c e n show ?thesis by blast
qed

theorem highlight_segments_witness:
  "literal_pattern ''rick'' \<and>
   highlightSearchTerm ''Ricky'' ''rick'' = Some [Plain [], Strong ''Rick'', Plain ''y''] \<and>
   split_pieces ''rick'' ''Ricky'' = [Between [], Captured ''Rick'', Between ''y''] \<and>
   leftmost_split ''rick'' (split_pieces ''rick'' ''Ricky'') \<and>
   piece_ok ''rick'' (Captured ''Rick'') \<and> piece_ok ''rick'' (Between ''y'')"
  using highlight_segments [of "''rick''" "''Ricky''"]
  by (simp add: highlightSearchTerm_def literal_pattern_def regex_syntax_chars_def
      split_pieces_def match_at_def toLowerCase_def toLowerCase_char_def
      upper_case_letters_def lower_case_letters_def piece_ok_def)

section \<open>Debounce hook: pending timers\<close>

lemma clear_if_set_active: "debounce_inv s \<Longrightarrow> active (clear_if_set s) = []"
proof (cases "active s")
  case Nil
  then show ?thesis
    by (simp add: clear_if_set_def clearTimeout_def split: option.splits)
next
  case (Cons t ts)
  assume "debounce_inv s"
  with Cons have "ts = []" "handle t \<noteq> 0" "timeoutRef s = Some (handle t)"
    by (auto simp: debounce_inv_def)
  with Cons show ?thesis
    by (simp add: clear_if_set_def clearTimeout_def)
qed

lemma clear_if_set_others:
  "nextHandle (clear_if_set s) = nextHandle s \<and> clock (clear_if_set s) = clock s \<and>
   invoked (clear_if_set s) = invoked s \<and> timeoutRef (clear_if_set s) = timeoutRef s"
  by (simp add: clear_if_set_def clearTimeout_def split: option.splits)

lemma debouncedCallback_active:
  "debounce_inv s \<Longrightarrow>
   active (debouncedCallback delay a s) =
     [\<lparr>handle = nextHandle s, due = clock s + delay, args = a\<rparr>]"
  by (simp add: debouncedCallback_def setTimeout_def clear_if_set_active clear_if_set_others)

lemma debouncedCallback_others:
  "timeoutRef (debouncedCallback delay a s) = Some (nextHandle s) \<and>
   nextHandle (debouncedCallback delay a s) = nextHandle s + 1 \<and>
   clock (debouncedCallback delay a s) = clock s \<and>
   invoked (debouncedCallback delay a s) = invoked s"
  by (simp add: debouncedCallback_def setTimeout_def clear_if_set_others)

lemma inv_step: "debounce_inv s \<Longrightarrow> debounce_inv (debounce_step delay s e)"
proof (cases e)
  case (Call a)
  assume i: "debounce_inv s"
  then show ?thesis
    using Call debouncedCallback_active [OF i, of delay a] debouncedCallback_others [of delay a s]
    by (simp add: debounce_inv_def)
next
  case (Elapse n)
  assume "debounce_inv s"
  with Elapse show ?thesis by (simp add: debounce_inv_def)
next
  case Fire
  assume i: "debounce_inv s"
  show ?thesis
  proof (cases "find (\<lambda>t. due t \<le> clock s) (active s)")
    case None
    with Fire i show ?thesis by (simp add: timer_fires_def)
  next
    case (Some t)
    have "length (filter (\<lambda>u. handle u \<noteq> handle t) (active s)) \<le> length (active s)"
      by simp
    moreover have "length (active s) \<le> 1"
      using i by (simp add: debounce_inv_def)
    ultimately have "length (filter (\<lambda>u. handle u \<noteq> handle t) (active s)) \<le> 1"
      by (rule le_trans)
    with Fire i Some show ?thesis
      by (auto simp: timer_fires_def debounce_inv_def)
  qed
next
  case Unmount
  assume i: "debounce_inv s"
  with Unmount show ?thesis
    using clear_if_set_active [OF i] clear_if_set_others [of s]
    by (simp add: debounce_inv_def unmount_def)
qed

lemma inv_run: "debounce_inv s \<Longrightarrow> debounce_inv (debounce_run delay s es)"
  unfolding debounce_run_def by (induction es arbitrary: s) (simp_all add: inv_step)

lemma inv_initial: "debounce_inv debounce_initial"
  by (simp add: debounce_inv_def debounce_initial_def)

lemma quiet_step:
  "active s = [] \<Longrightarrow> \<not> is_Call e \<Longrightarrow>
   active (debounce_step delay s e) = [] \<and> invoked (debounce_step delay s e) = invoked s"
  by (cases e)
    (simp_all add: timer_fires_def unmount_def clear_if_set_def clearTimeout_def
      split: option.splits)

lemma quiet_run:
  "active s = [] \<Longrightarrow> \<forall>e\<in>set es. \<not> is_Call e \<Longrightarrow>
   active (debounce_run delay s es) = [] \<and> invoked (debounce_run delay s es) = invoked s"
proof (induction es arbitrary: s)
  case Nil
  then show ?case by (simp add: debounce_run_def)
next
  case (Cons e es)
  then have q: "active (debounce_step delay s e) = [] \<and> invoked (debounce_step delay s e) = invoked s"
    by (simp add: quiet_step)
  with Cons.prems(2) have
    "active (debounce_run delay (debounce_step delay s e) es) = [] \<and>
     invoked (debounce_run delay (debounce_step delay s e) es) = invoked (debounce_step delay s e)"
    using Cons.IH [of "debounce_step delay s e"] by simp
  with q show ?case by (simp add: debounce_run_def)
qed

lemma fire_after_call:
  assumes "debounce_inv s"
  shows "invoked (debounce_run delay (debounce_step delay s (Call a)) [Elapse n, Fire]) =
     (if delay \<le> n then invoked s @ [a] else invoked s)"
  using debouncedCallback_active [OF assms, of delay a] debouncedCallback_others [of delay a s]
  by (simp add: debounce_run_def timer_fires_def)

text \<open>
  C9, as the specification states it, has the callback never invoked after teardown.
  The hook cancels what is pending when the component is unmounted, but it does not
  refuse a later invocation of the debounced function: that invocation sets a new
  timer, and when the timer fires the callback is called, after the teardown.
\<close>

theorem debounce_after_teardown_counterexample:
  "active (debounce_run 500 debounce_initial [Call ''r'', Unmount]) = [] \<and>
   invoked (debounce_run 500 debounce_initial [Call ''r'', Unmount]) = [] \<and>
   invoked
     (debounce_run 500 debounce_initial
        [Call ''r'', Unmount, Call ''late'', Elapse 500, Fire]) = [''late'']"
  by (simp add: debounce_run_def debounce_initial_def debouncedCallback_def setTimeout_def
      clear_if_set_def clearTimeout_def timer_fires_def unmount_def)

text \<open>
  C9, amended: in every state the hook can reach from its initial state, by any
  sequence of invocations, passing time, firing timers and unmounting,
  \<^item> at most one timer is active;
  \<^item> an invocation leaves exactly one active timer, the new one, due \<open>delay\<close>
    milliseconds after the invocation and carrying its arguments: whatever was pending
    is cancelled. When the browser fires timers after \<open>n\<close> more milliseconds, the
    callback is called with these arguments if \<open>delay \<le> n\<close>, and not at all otherwise;
  \<^item> unmounting leaves no active timer, and the callback is not called after it,
    however much time passes and however often the browser fires timers, unless the
    debounced function is invoked again after the unmount.
\<close>

theorem debounce_guarantees:
  "s = debounce_run delay debounce_initial es \<Longrightarrow>
   length (active s) \<le> 1 \<and>
   active (debounce_step delay s (Call a)) =
     [\<lparr>handle = nextHandle s, due = clock s + delay, args = a\<rparr>] \<and>
   invoked (debounce_run delay (debounce_step delay s (Call a)) [Elapse n, Fire]) =
     (if delay \<le> n then invoked s @ [a] else invoked s) \<and>
   active (debounce_step delay s Unmount) = [] \<and>
   ((\<forall>e\<in>set es'. \<not> is_Call e) \<longrightarrow>
      invoked (debounce_run delay (debounce_step delay s Unmount) es') = invoked s)"
proof -
  assume "s = debounce_run delay debounce_initial es"
  then have i: "debounce_inv s"
    using inv_run [OF inv_initial] by simp
  have u: "active (debounce_step delay s Unmount) = []" "invoked (debounce_step delay s Unmount) = invoked s"
    using clear_if_set_active [OF i] clear_if_set_others [of s] by (simp_all add: unmount_def)
  have "(\<forall>e\<in>set es'. \<not> is_Call e) \<longrightarrow>
      invoked (debounce_run delay (debounce_step delay s Unmount) es') = invoked s"
    using quiet_run [OF u(1), of es' delay] u(2) by simp
  moreover have "length (active s) \<le> 1"
    using i by (simp add: debounce_inv_def)
  ultimately show ?thesis
    using u(1) debouncedCallback_active [OF i, of delay a] fire_after_call [OF i, of delay a n]
    by simp
qed

theorem debounce_guarantees_witness:
  "length (active (debounce_run 500 debounce_initial [Call ''r'', Elapse 100])) = 1 \<and>
   active (debounce_step 500 (debounce_run 500 debounce_initial [Call ''r'', Elapse 100])
       (Call ''ri''))
     = [\<lparr>handle = 2, due = 600, args = ''ri''\<rparr>] \<and>
   invoked (debounce_run 500
       (debounce_step 500 (debounce_run 500 debounce_initial [Call ''r'', Elapse 100])
          (Call ''ri''))
       [Elapse 500, Fire])
     = [''ri''] \<and>
   invoked (debounce_run 500
       (debounce_step 500 (debounce_run 500 debounce_initial [Call ''r'', Elapse 100]) Unmount)
       [Elapse 1000, Fire])
     = []"
  using debounce_guarantees
    [of "debounce_run 500 debounce_initial [Call ''r'', Elapse 100]" 500
        "[Call ''r'', Elapse 100]" "''ri''" 500 "[Elapse 1000, Fire]"]
  by (simp add: debounce_run_def debounce_initial_def debouncedCallback_def setTimeout_def
      clear_if_set_def clearTimeout_def timer_fires_def unmount_def)

end
